theory Spec2Isabelle
  imports Complex_Main "HOL-Library.Word" "HOL-Library.FSet" "HOL-Library.Char_ord"
    "HOL-Library.List_Lexorder" "HOL-Library.Product_Lexorder"
begin

section \<open>Texas ISD finances: data preparation, query surface and NL engine\<close>

text \<open>
  Python strings are modelled as HOL strings whose characters are read as the code
  points 0..255. The character classes below are the ones Python applies to that
  range.
\<close>

subsection \<open>Character classes and string primitives\<close>

definition py_isspace :: "char \<Rightarrow> bool" where
  \<comment> \<open>\<open>str.isspace\<close> on one character: TAB..CR, FS..US, space, NEL, NBSP\<close>
  "py_isspace c \<longleftrightarrow>
     (let n = (of_char c :: nat)
      in (9 \<le> n \<and> n \<le> 13) \<or> (28 \<le> n \<and> n \<le> 32) \<or> n = 133 \<or> n = 160)"

definition py_isdigit_char :: "char \<Rightarrow> bool" where
  \<comment> \<open>\<open>str.isdigit\<close> on one character: 0..9 and the superscripts 2, 3, 1\<close>
  "py_isdigit_char c \<longleftrightarrow>
     (let n = (of_char c :: nat)
      in (48 \<le> n \<and> n \<le> 57) \<or> n = 178 \<or> n = 179 \<or> n = 185)"

definition isdigit :: "string \<Rightarrow> bool" where
  \<comment> \<open>\<open>s.isdigit()\<close>: at least one character and all of them digits\<close>
  "isdigit s \<longleftrightarrow> s \<noteq> [] \<and> list_all py_isdigit_char s"

definition lstrip_chars :: "(char \<Rightarrow> bool) \<Rightarrow> string \<Rightarrow> string" where
  "lstrip_chars P s = dropWhile P s"

definition rstrip_chars :: "(char \<Rightarrow> bool) \<Rightarrow> string \<Rightarrow> string" where
  "rstrip_chars P s = rev (dropWhile P (rev s))"

definition strip_chars :: "(char \<Rightarrow> bool) \<Rightarrow> string \<Rightarrow> string" where
  "strip_chars P s = rstrip_chars P (lstrip_chars P s)"

definition strip :: "string \<Rightarrow> string" where
  \<comment> \<open>\<open>s.strip()\<close>\<close>
  "strip s = strip_chars py_isspace s"

definition is_quote :: "char \<Rightarrow> bool" where
  \<comment> \<open>the one character of the argument of \<open>lstrip("'")\<close>\<close>
  "is_quote c \<longleftrightarrow> c = CHR 0x27"

definition zfill :: "nat \<Rightarrow> string \<Rightarrow> string" where
  \<comment> \<open>\<open>s.zfill(width)\<close>: zeros go after a leading sign\<close>
  "zfill width s =
     (if width \<le> length s then s
      else (case s of
              [] \<Rightarrow> replicate width CHR ''0''
            | c # r \<Rightarrow>
                if c = CHR ''+'' \<or> c = CHR ''-''
                then c # replicate (width - length s) CHR ''0'' @ r
                else replicate (width - length s) CHR ''0'' @ s))"

subsection \<open>Decimal rendering of integers\<close>

definition digit_char :: "nat \<Rightarrow> char" where
  "digit_char d = ''0123456789'' ! d"

fun str_nat :: "nat \<Rightarrow> string" where
  "str_nat n = (if n < 10 then [digit_char n] else str_nat (n div 10) @ [digit_char (n mod 10)])"

declare str_nat.simps [simp del]

definition str_int :: "int \<Rightarrow> string" where
  "str_int i = (if i < 0 then CHR ''-'' # str_nat (nat (- i)) else str_nat (nat i))"

subsection \<open>Spreadsheet cells\<close>

text \<open>
  A cell as \<open>read_excel\<close> delivers it: missing (None, NaN), an integer, a float or a
  text. A float is kept as its \<open>repr\<close> text, which is what \<open>str\<close> returns for it and
  what parses back to the same value.
\<close>

datatype cell = NA | IntVal int | FloatVal string | StrVal string

fun py_str :: "cell \<Rightarrow> string" where
  \<comment> \<open>\<open>str(x)\<close>; the cleaning returns before it renders a missing value\<close>
  "py_str NA = ''nan''"
| "py_str (IntVal i) = str_int i"
| "py_str (FloatVal r) = r"
| "py_str (StrVal s) = s"

subsection \<open>\<open>clean_district_number\<close>\<close>

definition clean_district_number :: "cell \<Rightarrow> string option" where
  "clean_district_number x =
     (if x = NA then None
      else
        let s = lstrip_chars is_quote (lstrip_chars is_quote (strip (py_str x)));
            s = (if isdigit s then zfill 6 s else s)
        in Some s)"

definition as_cell :: "string option \<Rightarrow> cell" where
  \<comment> \<open>a value returned by \<open>clean_district_number\<close>, stored back in the column\<close>
  "as_cell r = (case r of None \<Rightarrow> NA | Some s \<Rightarrow> StrVal s)"

definition stated_clean_district_number :: "string \<Rightarrow> string" where
  \<comment> \<open>the cleaning as the specification words it: quote characters and whitespace are
      stripped on both sides, a purely numeric rest is padded to six digits\<close>
  "stated_clean_district_number s =
     (let t = strip_chars (\<lambda>c. is_quote c \<or> py_isspace c) s
      in if isdigit t then replicate (6 - length t) CHR ''0'' @ t else t)"

subsection \<open>Facts about stripping and padding\<close>

lemma lstrip_chars_all: "\<forall>c\<in>set ws. P c \<Longrightarrow> lstrip_chars P (ws @ s) = lstrip_chars P s"
  by (simp add: lstrip_chars_def)

lemma lstrip_chars_stop: "s = [] \<or> \<not> P (hd s) \<Longrightarrow> lstrip_chars P s = s"
  by (cases s) (auto simp: lstrip_chars_def)

lemma rstrip_chars_all: "\<forall>c\<in>set ws. P c \<Longrightarrow> rstrip_chars P (s @ ws) = rstrip_chars P s"
  using dropWhile_append2 [of "rev ws" P "rev s"] by (simp add: rstrip_chars_def)

lemma rstrip_chars_stop: "s = [] \<or> \<not> P (last s) \<Longrightarrow> rstrip_chars P s = s"
  by (cases s rule: rev_cases) (auto simp: rstrip_chars_def)

lemma strip_chars_sandwich:
  assumes "\<forall>c\<in>set ws1. P c" "\<forall>c\<in>set ws2. P c"
      and "m = [] \<or> (\<not> P (hd m) \<and> \<not> P (last m))"
  shows "strip_chars P (ws1 @ m @ ws2) = m"
proof (cases "m = []")
  case True
  have "lstrip_chars P (ws1 @ ws2) = []"
    unfolding lstrip_chars_def dropWhile_eq_Nil_conv using assms(1,2) by auto
  then show ?thesis using True
    by (simp add: strip_chars_def rstrip_chars_def)
next
  case False
  have "lstrip_chars P (ws1 @ m @ ws2) = lstrip_chars P (m @ ws2)"
    using assms(1) by (rule lstrip_chars_all)
  also have "\<dots> = m @ ws2"
    using False assms(3) by (intro lstrip_chars_stop) simp
  finally have "strip_chars P (ws1 @ m @ ws2) = rstrip_chars P (m @ ws2)"
    by (simp add: strip_chars_def)
  also have "\<dots> = rstrip_chars P m"
    using assms(2) by (rule rstrip_chars_all)
  also have "\<dots> = m"
    using False assms(3) by (intro rstrip_chars_stop) simp
  finally show ?thesis .
qed












subsection \<open>Claims about \<open>clean_district_number\<close>\<close>

text \<open>
  C1 is what the function is for (its docstring: remove quotes), and the code misses it:
  the quotes are stripped on the left only, by two identical \<open>lstrip\<close> calls, after the
  whitespace. On the text quote, 1, 2, 3, quote the code keeps the trailing quote and
  does not pad the digits, where the stated cleaning gives 000123.
\<close>

theorem clean_district_number_trailing_quote:
  "clean_district_number (StrVal ([CHR 0x27] @ ''123'' @ [CHR 0x27])) = Some (''123'' @ [CHR 0x27]) \<and>
   stated_clean_district_number ([CHR 0x27] @ ''123'' @ [CHR 0x27]) = ''000123''"
  by code_simp




subsection \<open>\<open>to_snake_case\<close>\<close>

definition py_lower_char :: "char \<Rightarrow> char" where
  \<comment> \<open>\<open>str.lower\<close> on one character: A..Z and the upper-case letters of Latin-1\<close>
  "py_lower_char c =
     (let n = (of_char c :: nat)
      in if (65 \<le> n \<and> n \<le> 90) \<or> (192 \<le> n \<and> n \<le> 222 \<and> n \<noteq> 215)
         then char_of (n + 32) else c)"

definition lower :: "string \<Rightarrow> string" where
  "lower s = map py_lower_char s"

definition is_alnum :: "char \<Rightarrow> bool" where
  \<comment> \<open>the character class \<open>[0-9a-zA-Z]\<close>\<close>
  "is_alnum c \<longleftrightarrow>
     (let n = (of_char c :: nat)
      in (48 \<le> n \<and> n \<le> 57) \<or> (97 \<le> n \<and> n \<le> 122) \<or> (65 \<le> n \<and> n \<le> 90))"

definition is_underscore :: "char \<Rightarrow> bool" where
  "is_underscore c \<longleftrightarrow> c = CHR ''_''"

text \<open>
  \<open>re.sub\<close> for a pattern that is one character class repeated at least \<open>k + 1\<close>
  times, greedily: scanning from the left, a maximal run of at least \<open>k + 1\<close> matching
  characters is replaced by \<open>rep\<close>, any other character is copied.
\<close>

function re_sub_run :: "nat \<Rightarrow> (char \<Rightarrow> bool) \<Rightarrow> string \<Rightarrow> string \<Rightarrow> string" where
  "re_sub_run k P rep [] = []"
| "re_sub_run k P rep (c # r) =
     (if Suc k \<le> length (takeWhile P (c # r))
      then rep @ re_sub_run k P rep (dropWhile P (c # r))
      else c # re_sub_run k P rep r)"
  by pat_completeness auto
termination
proof (relation "measure (\<lambda>(k, P, rep, s). length s)")
  show "wf (measure (\<lambda>(k, P, rep, s). length s))" by simp
next
  fix k :: nat and P :: "char \<Rightarrow> bool" and rep :: string and c :: char and r
  assume "Suc k \<le> length (takeWhile P (c # r))"
  then have "P c" by (auto split: if_splits)
  then have "length (dropWhile P (c # r)) \<le> length r"
    by (simp add: length_dropWhile_le)
  then show "((k, P, rep, dropWhile P (c # r)), (k, P, rep, c # r)) \<in> measure (\<lambda>(k, P, rep, s). length s)"
    by simp
next
  fix k :: nat and P :: "char \<Rightarrow> bool" and rep :: string and c :: char and r
  show "((k, P, rep, r), (k, P, rep, c # r)) \<in> measure (\<lambda>(k, P, rep, s). length s)"
    by simp
qed

definition re_sub_nonalnum :: "string \<Rightarrow> string" where
  \<comment> \<open>\<open>re.sub(r'[^0-9a-zA-Z]+', '_', s)\<close>\<close>
  "re_sub_nonalnum s = re_sub_run 0 (\<lambda>c. \<not> is_alnum c) ''_'' s"

definition re_sub_underscores :: "string \<Rightarrow> string" where
  \<comment> \<open>\<open>re.sub(r'_{2,}', '_', s)\<close>\<close>
  "re_sub_underscores s = re_sub_run 1 is_underscore ''_'' s"

definition to_snake_case :: "string \<Rightarrow> string" where
  "to_snake_case name =
     (let s = lower (strip name);
          s = re_sub_nonalnum s;
          s = strip_chars is_underscore (re_sub_underscores s)
      in take 60 s)"

definition stated_to_snake_case :: "nat \<Rightarrow> string \<Rightarrow> string" where
  \<comment> \<open>the canonicalization as the specification words it, for a maximum length \<open>width\<close>:
      lower-case, each run of non-alphanumeric characters replaced by one underscore,
      leading and trailing underscores stripped, truncated\<close>
  "stated_to_snake_case width name =
     take width (strip_chars is_underscore (re_sub_nonalnum (lower name)))"


subsection \<open>Facts about the two substitutions\<close>

lemma strip_parts:
  "\<exists>a m b. u = a @ m @ b \<and> (\<forall>c\<in>set a. P c) \<and> (\<forall>c\<in>set b. P c) \<and>
     (m = [] \<or> (\<not> P (hd m) \<and> \<not> P (last m)))"
proof -
  define a where "a = takeWhile P u"
  define r where "r = dropWhile P u"
  define b where "b = rev (takeWhile P (rev r))"
  define m where "m = rev (dropWhile P (rev r))"
  have u: "u = a @ r" by (simp add: a_def r_def)
  have "rev (takeWhile P (rev r) @ dropWhile P (rev r)) = rev (rev r)"
    by (simp only: takeWhile_dropWhile_id)
  then have r: "r = m @ b" by (simp only: rev_append rev_rev_ident m_def b_def)
  have 1: "\<forall>c\<in>set a. P c" by (auto simp: a_def dest: set_takeWhileD)
  have 2: "\<forall>c\<in>set b. P c" by (auto simp: b_def dest: set_takeWhileD)
  have hdr: "r \<noteq> [] \<Longrightarrow> \<not> P (hd r)" unfolding r_def by (rule hd_dropWhile)
  have lastm: "m \<noteq> [] \<Longrightarrow> \<not> P (last m)"
  proof -
    assume "m \<noteq> []"
    then have ne: "dropWhile P (rev r) \<noteq> []" by (simp add: m_def)
    then have "\<not> P (hd (dropWhile P (rev r)))" by (rule hd_dropWhile)
    then show ?thesis using ne by (simp add: m_def last_rev)
  qed
  have "m \<noteq> [] \<Longrightarrow> \<not> P (hd m)" using hdr r by (simp add: hd_append)
  then have 3: "m = [] \<or> (\<not> P (hd m) \<and> \<not> P (last m))" using lastm by blast
  have "u = a @ m @ b" using u r by simp
  then show ?thesis using 1 2 3 by blast
qed

lemma rstrip_lstrip_sandwich:
  assumes "\<forall>c\<in>set a. P c" "\<forall>c\<in>set b. P c" "m = [] \<or> (\<not> P (hd m) \<and> \<not> P (last m))"
  shows "lstrip_chars P (rstrip_chars P (a @ m @ b)) = m"
proof (cases "m = []")
  case True
  have "rstrip_chars P ((a @ b)) = []"
    unfolding rstrip_chars_def using assms(1,2) by (auto simp: dropWhile_eq_Nil_conv)
  then show ?thesis using True by (simp add: lstrip_chars_def)
next
  case False
  have "rstrip_chars P ((a @ m) @ b) = rstrip_chars P (a @ m)"
    using assms(2) by (rule rstrip_chars_all)
  also have "\<dots> = a @ m"
    using False assms(3) by (intro rstrip_chars_stop) simp
  finally have "lstrip_chars P (rstrip_chars P (a @ m @ b)) = lstrip_chars P (a @ m)" by simp
  also have "\<dots> = lstrip_chars P m" using assms(1) by (rule lstrip_chars_all)
  also have "\<dots> = m" using False assms(3) by (intro lstrip_chars_stop) simp
  finally show ?thesis .
qed

lemma strip_chars_commute: "strip_chars P u = lstrip_chars P (rstrip_chars P u)"
proof -
  obtain a m b where "u = a @ m @ b" "\<forall>c\<in>set a. P c" "\<forall>c\<in>set b. P c"
     "m = [] \<or> (\<not> P (hd m) \<and> \<not> P (last m))"
    using strip_parts [of u P] by blast
  then show ?thesis
    using strip_chars_sandwich [of a P b m] rstrip_lstrip_sandwich [of a P b m] by simp
qed

lemma re_sub_nonalnum_Nil [simp]: "re_sub_nonalnum [] = []"
  by (simp add: re_sub_nonalnum_def)

lemma re_sub_nonalnum_Cons:
  "re_sub_nonalnum (c # r) =
     (if is_alnum c then c # re_sub_nonalnum r
      else CHR ''_'' # re_sub_nonalnum (dropWhile (\<lambda>c. \<not> is_alnum c) r))"
  by (simp add: re_sub_nonalnum_def)

lemma re_sub_underscores_Nil [simp]: "re_sub_underscores [] = []"
  by (simp add: re_sub_underscores_def)

lemma re_sub_underscores_single:
  "t = [] \<or> \<not> is_underscore (hd t) \<Longrightarrow>
   re_sub_underscores (c # t) = c # re_sub_underscores t"
  by (cases t) (auto simp: re_sub_underscores_def)

lemma alnum_not_underscore: "is_alnum c \<Longrightarrow> \<not> is_underscore c"
  by (auto simp: is_alnum_def is_underscore_def Let_def)

lemma underscore_not_alnum: "\<not> is_alnum CHR ''_''"
  by (simp add: is_alnum_def)

lemma re_sub_nonalnum_hd:
  "s \<noteq> [] \<Longrightarrow> is_alnum (hd s) \<Longrightarrow> re_sub_nonalnum s \<noteq> [] \<and> hd (re_sub_nonalnum s) = hd s"
  by (cases s) (simp_all add: re_sub_nonalnum_Cons)

lemma re_sub_nonalnum_after_run:
  "re_sub_nonalnum (dropWhile (\<lambda>c. \<not> is_alnum c) r) = [] \<or>
   \<not> is_underscore (hd (re_sub_nonalnum (dropWhile (\<lambda>c. \<not> is_alnum c) r)))"
proof (cases "dropWhile (\<lambda>c. \<not> is_alnum c) r = []")
  case True
  then show ?thesis by (simp del: dropWhile_eq_Nil_conv)
next
  case False
  then have "is_alnum (hd (dropWhile (\<lambda>c. \<not> is_alnum c) r))"
    using hd_dropWhile [of "\<lambda>c. \<not> is_alnum c" r] by simp
  then show ?thesis
    using False re_sub_nonalnum_hd alnum_not_underscore by auto
qed

lemma re_sub_underscores_idle:
  "re_sub_underscores (re_sub_nonalnum s) = re_sub_nonalnum s"
proof (induction s rule: length_induct)
  case (1 s)
  show ?case
  proof (cases s)
    case Nil
    then show ?thesis by simp
  next
    case (Cons c r)
    show ?thesis
    proof (cases "is_alnum c")
      case True
      have ih: "re_sub_underscores (re_sub_nonalnum r) = re_sub_nonalnum r"
        using "1.IH" Cons by simp
      have "re_sub_underscores (c # re_sub_nonalnum r) = c # re_sub_underscores (re_sub_nonalnum r)"
        using True by (cases "re_sub_nonalnum r")
          (auto simp: re_sub_underscores_def dest: alnum_not_underscore)
      then show ?thesis using True Cons ih by (simp add: re_sub_nonalnum_Cons)
    next
      case False
      let ?r' = "dropWhile (\<lambda>c. \<not> is_alnum c) r"
      have "length ?r' < length s"
        using Cons length_dropWhile_le [of "\<lambda>c. \<not> is_alnum c" r] by simp
      then have ih: "re_sub_underscores (re_sub_nonalnum ?r') = re_sub_nonalnum ?r'"
        using "1.IH" by simp
      have "re_sub_underscores (CHR ''_'' # re_sub_nonalnum ?r') =
              CHR ''_'' # re_sub_underscores (re_sub_nonalnum ?r')"
        using re_sub_nonalnum_after_run by (rule re_sub_underscores_single)
      then show ?thesis using False Cons ih by (simp add: re_sub_nonalnum_Cons)
    qed
  qed
qed

lemma lstrip_underscore_Cons:
  "lstrip_chars is_underscore (CHR ''_'' # t) = lstrip_chars is_underscore t"
  by (simp add: lstrip_chars_def is_underscore_def)

lemma re_sub_nonalnum_skip:
  "lstrip_chars is_underscore (CHR ''_'' # re_sub_nonalnum (dropWhile (\<lambda>c. \<not> is_alnum c) m)) =
   lstrip_chars is_underscore (re_sub_nonalnum m)"
proof (cases m)
  case Nil
  then show ?thesis by (simp add: lstrip_chars_def is_underscore_def)
next
  case (Cons c r)
  then show ?thesis
    by (cases "is_alnum c") (simp_all add: re_sub_nonalnum_Cons lstrip_underscore_Cons)
qed

lemma re_sub_nonalnum_prefix:
  assumes "\<forall>c\<in>set a. \<not> is_alnum c"
  shows "lstrip_chars is_underscore (re_sub_nonalnum (a @ m)) =
         lstrip_chars is_underscore (re_sub_nonalnum m)"
proof (cases a)
  case Nil
  then show ?thesis by simp
next
  case (Cons c a')
  then have "re_sub_nonalnum (a @ m) =
               CHR ''_'' # re_sub_nonalnum (dropWhile (\<lambda>c. \<not> is_alnum c) (a' @ m))"
    using assms by (simp add: re_sub_nonalnum_Cons)
  also have "dropWhile (\<lambda>c. \<not> is_alnum c) (a' @ m) = dropWhile (\<lambda>c. \<not> is_alnum c) m"
    using assms Cons by simp
  finally show ?thesis by (simp only: re_sub_nonalnum_skip)
qed

lemma rstrip_chars_append:
  "rstrip_chars P (p @ t) = (if rstrip_chars P t = [] then rstrip_chars P p else p @ rstrip_chars P t)"
  by (auto simp: rstrip_chars_def dropWhile_append)

lemma rstrip_chars_cong_append:
  "rstrip_chars P t = rstrip_chars P t' \<Longrightarrow> rstrip_chars P (p @ t) = rstrip_chars P (p @ t')"
  by (simp add: rstrip_chars_append)

lemma re_sub_nonalnum_run:
  assumes "s \<noteq> []" "\<forall>c\<in>set s. \<not> is_alnum c"
  shows "re_sub_nonalnum s = ''_''"
proof -
  obtain c r where s: "s = c # r" using assms(1) by (cases s) auto
  have "dropWhile (\<lambda>c. \<not> is_alnum c) r = []"
    using assms(2) s by simp
  then show ?thesis using assms(2) s
    by (simp add: re_sub_nonalnum_Cons del: dropWhile_eq_Nil_conv)
qed

lemma re_sub_nonalnum_suffix:
  assumes b: "\<forall>c\<in>set b. \<not> is_alnum c"
  shows "rstrip_chars is_underscore (re_sub_nonalnum (m @ b)) =
         rstrip_chars is_underscore (re_sub_nonalnum m)"
proof (induction m rule: length_induct)
  case (1 m)
  show ?case
  proof (cases m)
    case Nil
    show ?thesis
    proof (cases "b = []")
      case True
      then show ?thesis using Nil by simp
    next
      case False
      then have "re_sub_nonalnum b = ''_''" using b by (rule re_sub_nonalnum_run)
      then show ?thesis using Nil by (simp add: rstrip_chars_def is_underscore_def)
    qed
  next
    case (Cons c r)
    show ?thesis
    proof (cases "is_alnum c")
      case True
      have "rstrip_chars is_underscore (re_sub_nonalnum (r @ b)) =
            rstrip_chars is_underscore (re_sub_nonalnum r)"
        using "1.IH" Cons by simp
      then have "rstrip_chars is_underscore ([c] @ re_sub_nonalnum (r @ b)) =
                 rstrip_chars is_underscore ([c] @ re_sub_nonalnum r)"
        by (rule rstrip_chars_cong_append)
      then show ?thesis using True Cons by (simp add: re_sub_nonalnum_Cons)
    next
      case False
      let ?N = "\<lambda>c. \<not> is_alnum c"
      show ?thesis
      proof (cases "\<forall>x\<in>set r. ?N x")
        case all: True
        then have "dropWhile ?N (r @ b) = []" "dropWhile ?N r = []"
          using b by auto
        then show ?thesis using False Cons
          by (simp add: re_sub_nonalnum_Cons del: dropWhile_eq_Nil_conv dropWhile_append2)
      next
        case notall: False
        then have d: "dropWhile ?N (r @ b) = dropWhile ?N r @ b"
          by (auto simp: dropWhile_append)
        have "length (dropWhile ?N r) < length m"
          using Cons length_dropWhile_le [of ?N r] by simp
        then have "rstrip_chars is_underscore (re_sub_nonalnum (dropWhile ?N r @ b)) =
                   rstrip_chars is_underscore (re_sub_nonalnum (dropWhile ?N r))"
          using "1.IH" by simp
        then have "rstrip_chars is_underscore (''_'' @ re_sub_nonalnum (dropWhile ?N r @ b)) =
                   rstrip_chars is_underscore (''_'' @ re_sub_nonalnum (dropWhile ?N r))"
          by (rule rstrip_chars_cong_append)
        then show ?thesis using False Cons d by (simp add: re_sub_nonalnum_Cons)
      qed
    qed
  qed
qed

lemma space_not_alnum_lower: "py_isspace c \<Longrightarrow> \<not> is_alnum (py_lower_char c)"
  by (auto simp: py_isspace_def is_alnum_def py_lower_char_def Let_def)

subsection \<open>Claims about \<open>to_snake_case\<close>\<close>

text \<open>
  C2, as the code has it. For every raw column name, \<open>to_snake_case\<close> lower-cases it,
  replaces each run of non-alphanumeric characters by a single underscore, strips
  leading and trailing underscores and truncates the result to 60 characters. The
  whitespace \<open>strip\<close> in front and the second substitution change nothing of that.
\<close>

theorem to_snake_case_refines:
  "to_snake_case name = stated_to_snake_case 60 name"
proof -
  obtain a m b where parts: "name = a @ m @ b" "\<forall>c\<in>set a. py_isspace c" "\<forall>c\<in>set b. py_isspace c"
     "m = [] \<or> (\<not> py_isspace (hd m) \<and> \<not> py_isspace (last m))"
    using strip_parts [of name py_isspace] by blast
  have st: "strip name = m"
    unfolding strip_def parts(1) using parts(2-4) by (rule strip_chars_sandwich)
  have la: "\<forall>c\<in>set (lower a). \<not> is_alnum c" and lb: "\<forall>c\<in>set (lower b). \<not> is_alnum c"
    using parts(2,3) by (auto simp: lower_def space_not_alnum_lower)
  have ln: "lower name = lower a @ lower m @ lower b"
    by (simp add: parts(1) lower_def)
  have "strip_chars is_underscore (re_sub_nonalnum (lower name)) =
        lstrip_chars is_underscore (rstrip_chars is_underscore (re_sub_nonalnum ((lower a @ lower m) @ lower b)))"
    by (simp add: strip_chars_commute ln)
  also have "\<dots> = lstrip_chars is_underscore (rstrip_chars is_underscore (re_sub_nonalnum (lower a @ lower m)))"
    using lb by (simp only: re_sub_nonalnum_suffix)
  also have "\<dots> = strip_chars is_underscore (re_sub_nonalnum (lower a @ lower m))"
    by (simp add: strip_chars_commute)
  also have "\<dots> = strip_chars is_underscore (re_sub_nonalnum (lower m))"
    using la by (simp add: strip_chars_def re_sub_nonalnum_prefix)
  finally show ?thesis
    by (simp add: to_snake_case_def stated_to_snake_case_def st re_sub_underscores_idle)
qed

text \<open>
  C2 as stated, with a maximum length of 63, fails on a name of 61 letters: the code
  returns 60 characters where the stated canonicalization keeps all 61.
\<close>

theorem to_snake_case_63_counterexample:
  "length (to_snake_case (replicate 61 CHR ''a'')) = 60 \<and>
   length (stated_to_snake_case 63 (replicate 61 CHR ''a'')) = 61"
  by code_simp

subsection \<open>Suffixed names and the inner loop\<close>

lemma str_nat_nonempty: "str_nat n \<noteq> []"
  by (subst str_nat.simps) simp

lemma digit_char_inj: "a < 10 \<Longrightarrow> b < 10 \<Longrightarrow> digit_char a = digit_char b \<Longrightarrow> a = b"
  unfolding digit_char_def
  by (subst (asm) nth_eq_iff_index_eq) simp_all

lemma str_nat_inj: "str_nat m = str_nat n \<Longrightarrow> m = n"
proof (induction m arbitrary: n rule: str_nat.induct)
  case (1 m)
  show ?case
  proof (cases "m < 10")
    case m: True
    show ?thesis
    proof (cases "n < 10")
      case True
      then show ?thesis using m "1.prems" digit_char_inj
        by (simp add: str_nat.simps [of m] str_nat.simps [of n])
    next
      case False
      then show ?thesis using m "1.prems" str_nat_nonempty [of "n div 10"]
        by (simp add: str_nat.simps [of m] str_nat.simps [of n])
    qed
  next
    case m: False
    show ?thesis
    proof (cases "n < 10")
      case True
      then show ?thesis using m "1.prems" str_nat_nonempty [of "m div 10"]
        by (simp add: str_nat.simps [of m] str_nat.simps [of n])
    next
      case False
      then have "str_nat (m div 10) = str_nat (n div 10)" "digit_char (m mod 10) = digit_char (n mod 10)"
        using m "1.prems" by (simp_all add: str_nat.simps [of m] str_nat.simps [of n])
      then have "m div 10 = n div 10" "m mod 10 = n mod 10"
        using "1.IH" m digit_char_inj [of "m mod 10" "n mod 10"] by auto
      then show ?thesis by (metis div_mult_mod_eq)
    qed
  qed
qed

definition suffixed :: "string \<Rightarrow> nat \<Rightarrow> string" where
  \<comment> \<open>the f-string \<open>f"{base}_{i}"\<close>\<close>
  "suffixed base i = base @ ''_'' @ str_nat i"

lemma inj_suffixed: "inj (suffixed base)"
  by (auto simp: inj_def suffixed_def dest: str_nat_inj)

text \<open>
  The inner \<open>while candidate in seen\<close> loop, entered with \<open>candidate = base\<close> and
  \<open>i = 1\<close>. It terminates because \<open>seen\<close> is finite and the suffixed names are
  pairwise different.
\<close>

function dedup_loop :: "string fset \<Rightarrow> string \<Rightarrow> string \<Rightarrow> nat \<Rightarrow> string" where
  "dedup_loop seen base candidate i =
     (if candidate |\<in>| seen then dedup_loop seen base (suffixed base i) (i + 1) else candidate)"
  by pat_completeness auto
termination
proof (relation "measure (\<lambda>(seen, base, candidate, i).
          if candidate |\<in>| seen then Suc (card {j. i \<le> j \<and> suffixed base j |\<in>| seen}) else 0)")
  show "wf (measure (\<lambda>(seen, base, candidate, i).
          if candidate |\<in>| seen then Suc (card {j. i \<le> j \<and> suffixed base j |\<in>| seen}) else 0))"
    by simp
next
  fix seen :: "string fset" and base candidate :: string and i :: nat
  assume c: "candidate |\<in>| seen"
  have fin: "finite {j. i \<le> j \<and> suffixed base j |\<in>| seen}"
  proof -
    have "finite (suffixed base -` fset seen)"
      using inj_suffixed by (intro finite_vimageI) simp_all
    then show ?thesis by (rule rev_finite_subset) auto
  qed
  have "suffixed base i |\<in>| seen \<Longrightarrow>
        card {j. i + 1 \<le> j \<and> suffixed base j |\<in>| seen} < card {j. i \<le> j \<and> suffixed base j |\<in>| seen}"
  proof -
    assume "suffixed base i |\<in>| seen"
    then have "i \<in> {j. i \<le> j \<and> suffixed base j |\<in>| seen}"
      and "i \<notin> {j. i + 1 \<le> j \<and> suffixed base j |\<in>| seen}"
      by simp_all
    moreover have "{j. i + 1 \<le> j \<and> suffixed base j |\<in>| seen} \<subseteq>
                   {j. i \<le> j \<and> suffixed base j |\<in>| seen}"
      by auto
    ultimately have "{j. i + 1 \<le> j \<and> suffixed base j |\<in>| seen} \<subset>
                     {j. i \<le> j \<and> suffixed base j |\<in>| seen}"
      by blast
    with fin show ?thesis by (rule psubset_card_mono)
  qed
  then show "((seen, base, suffixed base i, i + 1), (seen, base, candidate, i)) \<in>
      measure (\<lambda>(seen, base, candidate, i).
          if candidate |\<in>| seen then Suc (card {j. i \<le> j \<and> suffixed base j |\<in>| seen}) else 0)"
    using c by simp
qed

declare dedup_loop.simps [simp del]

lemma dedup_loop_fresh: "dedup_loop seen base candidate i |\<notin>| seen"
  by (induction seen base candidate i rule: dedup_loop.induct)
     (simp add: dedup_loop.simps)

lemma dedup_loop_unseen: "candidate |\<notin>| seen \<Longrightarrow> dedup_loop seen base candidate i = candidate"
  by (simp add: dedup_loop.simps)

lemma dedup_loop_least:
  "candidate |\<in>| seen \<Longrightarrow>
   \<exists>k\<ge>i. dedup_loop seen base candidate i = suffixed base k \<and> suffixed base k |\<notin>| seen \<and>
          (\<forall>j. i \<le> j \<and> j < k \<longrightarrow> suffixed base j |\<in>| seen)"
proof (induction seen base candidate i rule: dedup_loop.induct)
  case (1 seen base candidate i)
  show ?case
  proof (cases "suffixed base i |\<in>| seen")
    case True
    then obtain k where k: "i + 1 \<le> k"
        "dedup_loop seen base (suffixed base i) (i + 1) = suffixed base k"
        "suffixed base k |\<notin>| seen"
        "\<forall>j. i + 1 \<le> j \<and> j < k \<longrightarrow> suffixed base j |\<in>| seen"
      using "1.IH" "1.prems" by blast
    have "\<forall>j. i \<le> j \<and> j < k \<longrightarrow> suffixed base j |\<in>| seen"
    proof (intro allI impI)
      fix j assume "i \<le> j \<and> j < k"
      then show "suffixed base j |\<in>| seen"
        using True k(4) by (cases "j = i") auto
    qed
    moreover have "dedup_loop seen base candidate i = suffixed base k"
      using "1.prems" k(2) by (simp add: dedup_loop.simps [of seen base candidate])
    ultimately show ?thesis using k(1,3) by (intro exI [of _ k]) simp
  next
    case False
    then have "dedup_loop seen base candidate i = suffixed base i"
      using "1.prems" by (simp add: dedup_loop.simps)
    then show ?thesis using False by (intro exI [of _ i]) auto
  qed
qed

subsection \<open>Labels and the renaming loop\<close>

text \<open>
  A column label as \<open>read_excel\<close> delivers it: the text of the header cell, or a number
  or another object (a float, a date; kept by its \<open>repr\<close>) when the header cell holds
  one.
\<close>

datatype label = StrLabel string | IntLabel int | OtherLabel string

text \<open>The exceptions of the data preparation.\<close>

datatype error = KeyError string | AttributeError | TypeError | OverflowError

text \<open>
  \<open>to_snake_case(col)\<close> on a label: \<open>name.strip()\<close> exists for a text only, any other
  label raises \<open>AttributeError\<close>.
\<close>

definition to_snake_case_label :: "label \<Rightarrow> error + string" where
  "to_snake_case_label name =
     (case name of
        StrLabel s \<Rightarrow> Inr (to_snake_case s)
      | IntLabel i \<Rightarrow> Inl AttributeError
      | OtherLabel r \<Rightarrow> Inl AttributeError)"

text \<open>The \<open>for col in df.columns\<close> loop, with its two variables as state.\<close>

fun rename_loop ::
  "label list \<Rightarrow> string fset \<Rightarrow> (label \<rightharpoonup> string) \<Rightarrow> error + (label \<rightharpoonup> string)" where
  "rename_loop [] seen col_mapping = Inr col_mapping"
| "rename_loop (col # cols) seen col_mapping =
     (case to_snake_case_label col of
        Inl e \<Rightarrow> Inl e
      | Inr base \<Rightarrow>
          let candidate = dedup_loop seen base base 1
          in rename_loop cols (finsert candidate seen) (col_mapping(col \<mapsto> candidate)))"

definition rename_columns :: "label list \<Rightarrow> error + label list" where
  \<comment> \<open>the labels after \<open>df.rename(columns=col_mapping)\<close>: a label that is no key stays\<close>
  "rename_columns cols =
     (case rename_loop cols {||} Map.empty of
        Inl e \<Rightarrow> Inl e
      | Inr col_mapping \<Rightarrow>
          Inr (map (\<lambda>col. case col_mapping col of Some new \<Rightarrow> StrLabel new | None \<Rightarrow> col) cols))"

text \<open>
  The candidates in the order the loop hands them out; a device of the proofs below,
  which show that it is what the renaming yields on pairwise different names.
\<close>

fun final_names :: "string list \<Rightarrow> string fset \<Rightarrow> string list" where
  "final_names [] seen = []"
| "final_names (col # cols) seen =
     (let candidate = dedup_loop seen (to_snake_case col) (to_snake_case col) 1
      in candidate # final_names cols (finsert candidate seen))"

lemma rename_loop_other:
  "rename_loop cols seen m = Inr m' \<Longrightarrow> c \<notin> set cols \<Longrightarrow> m' c = m c"
  by (induction cols arbitrary: seen m)
     (auto simp: Let_def split: sum.splits)

lemma rename_loop_text:
  "distinct names \<Longrightarrow>
   \<exists>m'. rename_loop (map StrLabel names) seen m = Inr m' \<and>
        map (\<lambda>n. m' (StrLabel n)) names = map Some (final_names names seen)"
proof (induction names arbitrary: seen m)
  case Nil
  then show ?case by simp
next
  case (Cons c cs)
  let ?cand = "dedup_loop seen (to_snake_case c) (to_snake_case c) 1"
  obtain m' where m': "rename_loop (map StrLabel cs) (finsert ?cand seen) (m(StrLabel c \<mapsto> ?cand)) = Inr m'"
      "map (\<lambda>n. m' (StrLabel n)) cs = map Some (final_names cs (finsert ?cand seen))"
    using Cons.IH Cons.prems by (metis distinct.simps(2))
  have "StrLabel c \<notin> set (map StrLabel cs)" using Cons.prems by auto
  then have "m' (StrLabel c) = Some ?cand"
    using rename_loop_other [OF m'(1)] by simp
  then show ?case using m' by (simp add: to_snake_case_label_def Let_def)
qed

lemma rename_columns_text:
  assumes "distinct names"
  shows "rename_columns (map StrLabel names) = Inr (map StrLabel (final_names names {||}))"
proof -
  obtain m' where m': "rename_loop (map StrLabel names) {||} Map.empty = Inr m'"
      "map (\<lambda>n. m' (StrLabel n)) names = map Some (final_names names {||})"
    using rename_loop_text [OF assms] by blast
  have len: "length (final_names names {||}) = length names"
    using m'(2) by (metis length_map)
  have nth: "m' (StrLabel (names ! i)) = Some (final_names names {||} ! i)" if "i < length names" for i
  proof -
    have "map (\<lambda>n. m' (StrLabel n)) names ! i = map Some (final_names names {||}) ! i"
      using m'(2) by simp
    then show ?thesis using that len by simp
  qed
  have "map (\<lambda>col. case m' col of Some new \<Rightarrow> StrLabel new | None \<Rightarrow> col) (map StrLabel names) =
        map StrLabel (final_names names {||})"
    by (rule nth_equalityI) (simp_all add: len nth)
  then show ?thesis by (simp add: rename_columns_def m'(1))
qed





lemma final_names_fresh:
  "distinct (final_names cols seen) \<and> (\<forall>n\<in>set (final_names cols seen). n |\<notin>| seen)"
proof (induction cols arbitrary: seen)
  case Nil
  then show ?case by simp
next
  case (Cons c cs)
  let ?cand = "dedup_loop seen (to_snake_case c) (to_snake_case c) 1"
  have "?cand |\<notin>| seen" by (rule dedup_loop_fresh)
  moreover have "distinct (final_names cs (finsert ?cand seen))"
    and "\<forall>n\<in>set (final_names cs (finsert ?cand seen)). n |\<notin>| finsert ?cand seen"
    using Cons.IH by blast+
  ultimately show ?case by (auto simp: Let_def)
qed

lemma length_final_names: "length (final_names cols seen) = length cols"
  by (induction cols arbitrary: seen) (simp_all add: Let_def)

lemma final_names_nth:
  "i < length cols \<Longrightarrow>
   final_names cols seen ! i =
     dedup_loop (seen |\<union>| fset_of_list (take i (final_names cols seen)))
       (to_snake_case (cols ! i)) (to_snake_case (cols ! i)) 1"
proof (induction cols arbitrary: seen i)
  case Nil
  then show ?case by simp
next
  case (Cons c cs)
  show ?case
  proof (cases i)
    case 0
    then show ?thesis by (simp add: Let_def)
  next
    case (Suc j)
    let ?cand = "dedup_loop seen (to_snake_case c) (to_snake_case c) 1"
    have "final_names cs (finsert ?cand seen) ! j =
            dedup_loop (finsert ?cand seen |\<union>| fset_of_list (take j (final_names cs (finsert ?cand seen))))
              (to_snake_case (cs ! j)) (to_snake_case (cs ! j)) 1"
      using Cons.IH Cons.prems Suc by simp
    then show ?thesis using Suc by (simp add: Let_def)
  qed
qed

lemma str_nat_1: "str_nat (Suc 0) = ''1''"
  by (simp add: str_nat.simps digit_char_def)

lemma final_names_step:
  assumes i: "i < length names"
  shows "let base = to_snake_case (names ! i); earlier = set (take i (final_names names {||}))
        in (base \<notin> earlier \<longrightarrow> final_names names {||} ! i = base) \<and>
           (base \<in> earlier \<longrightarrow>
              (\<exists>k\<ge>1. final_names names {||} ! i = suffixed base k \<and> suffixed base k \<notin> earlier \<and>
                 (\<forall>j. 1 \<le> j \<and> j < k \<longrightarrow> suffixed base j \<in> earlier)))"
proof -
  define base where "base = to_snake_case (names ! i)"
  define seen where "seen = fset_of_list (take i (final_names names {||}))"
  have nth: "final_names names {||} ! i = dedup_loop seen base base 1"
    using final_names_nth [OF i, of "{||}"] by (simp add: seen_def base_def)
  have mem: "\<And>s. s |\<in>| seen \<longleftrightarrow> s \<in> set (take i (final_names names {||}))"
    by (simp add: seen_def fset_of_list.rep_eq)
  have a: "base |\<notin>| seen \<Longrightarrow> final_names names {||} ! i = base"
    using nth by (simp add: dedup_loop_unseen)
  have b: "base |\<in>| seen \<Longrightarrow>
        \<exists>k\<ge>1. final_names names {||} ! i = suffixed base k \<and> suffixed base k |\<notin>| seen \<and>
               (\<forall>j. 1 \<le> j \<and> j < k \<longrightarrow> suffixed base j |\<in>| seen)"
    using dedup_loop_least [of base seen 1 base] nth by simp
  show ?thesis
    using a b unfolding Let_def base_def [symmetric] mem [symmetric] by blast
qed

lemma final_names_pair:
  assumes ij: "i < j" "j < length names"
      and t: "to_snake_case (names ! i) = t" "to_snake_case (names ! j) = t"
      and free: "t \<notin> set (take i (final_names names {||}))"
                "t @ ''_1'' \<notin> set (take j (final_names names {||}))"
  shows "final_names names {||} ! i = t \<and> final_names names {||} ! j = t @ ''_1''"
proof -
  let ?out = "final_names names {||}"
  have s1: "suffixed t 1 = t @ ''_1''"
    by (simp add: suffixed_def str_nat_1)
  have i: "?out ! i = t"
    using final_names_step [of i names] ij t(1) free(1) by (simp add: Let_def)
  have "?out ! i \<in> set (take j ?out)"
    using ij by (metis length_final_names in_set_conv_nth length_take min.absorb2 nth_take
        less_imp_le_nat order.strict_trans)
  then have "t \<in> set (take j ?out)" using i by simp
  then obtain k where k: "1 \<le> k" "?out ! j = suffixed t k"
      "\<forall>l. 1 \<le> l \<and> l < k \<longrightarrow> suffixed t l \<in> set (take j ?out)"
    using final_names_step [of j names] ij t(2) by (auto simp: Let_def)
  have "k = 1"
  proof (rule ccontr)
    assume "k \<noteq> 1"
    then have "1 < k" using k(1) by simp
    then have "suffixed t 1 \<in> set (take j ?out)" using k(3) by blast
    then show False using free(2) s1 by simp
  qed
  then show ?thesis using i k(2) s1 by simp
qed

subsection \<open>Claim about the renaming\<close>

text \<open>
  C4, as the code has it. For every sequence of pairwise different raw column names the
  renaming returns as many final names, pairwise distinct. The name of a column is its
  canonical name when no earlier column got that name, and otherwise the canonical name
  with the suffix \<open>_k\<close> for the least \<open>k \<ge> 1\<close> that no earlier column got. In particular
  two columns that both normalize to \<open>total_revenue\<close> become \<open>total_revenue\<close> and
  \<open>total_revenue_1\<close>, in that order, when no earlier column got either name.
\<close>

theorem rename_columns_dedup:
  assumes "distinct names"
  shows "\<exists>out. rename_columns (map StrLabel names) = Inr (map StrLabel out) \<and>
    length out = length names \<and> distinct out \<and>
    (\<forall>i<length names.
        let base = to_snake_case (names ! i); earlier = set (take i out)
        in (base \<notin> earlier \<longrightarrow> out ! i = base) \<and>
           (base \<in> earlier \<longrightarrow>
              (\<exists>k\<ge>1. out ! i = suffixed base k \<and> suffixed base k \<notin> earlier \<and>
                 (\<forall>j. 1 \<le> j \<and> j < k \<longrightarrow> suffixed base j \<in> earlier)))) \<and>
    (\<forall>i j. i < j \<and> j < length names \<and>
           to_snake_case (names ! i) = ''total_revenue'' \<and>
           to_snake_case (names ! j) = ''total_revenue'' \<and>
           ''total_revenue'' \<notin> set (take i out) \<and> ''total_revenue_1'' \<notin> set (take j out) \<longrightarrow>
       out ! i = ''total_revenue'' \<and> out ! j = ''total_revenue_1'')"
proof (intro exI conjI allI impI)
  show "rename_columns (map StrLabel names) = Inr (map StrLabel (final_names names {||}))"
    using assms by (rule rename_columns_text)
  show "length (final_names names {||}) = length names"
    by (rule length_final_names)
  show "distinct (final_names names {||})"
    using final_names_fresh [of names "{||}"] by simp
next
  fix i assume "i < length names"
  then show "let base = to_snake_case (names ! i); earlier = set (take i (final_names names {||}))
        in (base \<notin> earlier \<longrightarrow> final_names names {||} ! i = base) \<and>
           (base \<in> earlier \<longrightarrow>
              (\<exists>k\<ge>1. final_names names {||} ! i = suffixed base k \<and> suffixed base k \<notin> earlier \<and>
                 (\<forall>j. 1 \<le> j \<and> j < k \<longrightarrow> suffixed base j \<in> earlier)))"
    by (rule final_names_step)
next
  fix i j
  assume h: "i < j \<and> j < length names \<and>
           to_snake_case (names ! i) = ''total_revenue'' \<and>
           to_snake_case (names ! j) = ''total_revenue'' \<and>
           ''total_revenue'' \<notin> set (take i (final_names names {||})) \<and>
           ''total_revenue_1'' \<notin> set (take j (final_names names {||}))"
  have "final_names names {||} ! i = ''total_revenue'' \<and>
        final_names names {||} ! j = ''total_revenue'' @ ''_1''"
    using h by (intro final_names_pair) simp_all
  then show "final_names names {||} ! i = ''total_revenue''"
    and "final_names names {||} ! j = ''total_revenue_1''"
    by simp_all
qed

theorem rename_columns_dedup_witness:
  "rename_columns (map StrLabel [''DISTRICT NUMBER'', ''Total Revenue'', ''total_revenue'']) =
     Inr (map StrLabel [''district_number'', ''total_revenue'', ''total_revenue_1'']) \<and>
   (\<exists>out. rename_columns (map StrLabel [''DISTRICT NUMBER'', ''Total Revenue'', ''total_revenue'']) =
            Inr (map StrLabel out) \<and> length out = 3 \<and> distinct out)"
proof -
  have d: "distinct [''DISTRICT NUMBER'', ''Total Revenue'', ''total_revenue'']" by simp
  have e: "rename_columns (map StrLabel [''DISTRICT NUMBER'', ''Total Revenue'', ''total_revenue'']) =
     Inr (map StrLabel [''district_number'', ''total_revenue'', ''total_revenue_1''])"
    by code_simp
  have "\<exists>out. rename_columns (map StrLabel [''DISTRICT NUMBER'', ''Total Revenue'', ''total_revenue'']) =
            Inr (map StrLabel out) \<and> length out = 3 \<and> distinct out"
    using rename_columns_dedup [OF d] by auto
  then show ?thesis using e by blast
qed

text \<open>
  C4 as stated fails in two ways. When an earlier column is already called
  \<open>total_revenue_1\<close>, the second of two columns that normalize to \<open>total_revenue\<close>
  becomes \<open>total_revenue_2\<close>. And the mapping is keyed by the raw label, so of a label
  that occurs twice both columns get the same final name (\<open>read_excel\<close> itself never
  delivers a label twice: it renames repeated headers).
\<close>

theorem rename_columns_stated_counterexample:
  "rename_columns (map StrLabel [''total_revenue_1'', ''Total Revenue'', ''total_revenue'',
                                 ''DISTRICT NUMBER'']) =
     Inr (map StrLabel [''total_revenue_1'', ''total_revenue'', ''total_revenue_2'',
                        ''district_number'']) \<and>
   rename_columns (map StrLabel [''DISTRICT NUMBER'', ''Revenue'', ''Revenue'']) =
     Inr (map StrLabel [''district_number'', ''revenue_1'', ''revenue_1''])"
  by code_simp

subsection \<open>The frame and its type conversion\<close>

text \<open>
  The numbers \<open>pd.to_numeric\<close> yields: a finite value or an infinity. NaN is the
  missing value and is \<open>None\<close> below. How a text parses is pandas' business, so the
  parser of texts is a parameter; \<open>errors="coerce"\<close> makes it total, with \<open>None\<close> for a
  text that does not parse.
\<close>

datatype num = Finite rat | PosInf | NegInf

type_synonym parser = "string \<Rightarrow> num option"

fun to_num :: "parser \<Rightarrow> cell \<Rightarrow> num option" where
  "to_num p NA = None"
| "to_num p (IntVal i) = Some (Finite (of_int i))"
| "to_num p (FloatVal r) = p r"
| "to_num p (StrVal s) = p s"

text \<open>\<open>pd.to_numeric(df[col], errors="coerce")\<close>, cell by cell.\<close>

definition to_numeric :: "parser \<Rightarrow> cell list \<Rightarrow> num option list" where
  "to_numeric p cells = map (to_num p) cells"

text \<open>
  \<open>nums.notna().mean() >= 0.9\<close>. The mean is the count of non-missing entries over the
  count of all entries; on an empty column it is NaN and the comparison is false. For
  row counts below \<open>2 ^ 50\<close> the comparison of the rounded quotient with the rounded
  \<open>0.9\<close> agrees with the exact one, which is what is written here.
\<close>

definition notna_count :: "num option list \<Rightarrow> nat" where
  "notna_count nums = length (filter (\<lambda>v. v \<noteq> None) nums)"

definition notna_mean_ge_09 :: "num option list \<Rightarrow> bool" where
  "notna_mean_ge_09 nums \<longleftrightarrow> nums \<noteq> [] \<and> 9 * length nums \<le> 10 * notna_count nums"

text \<open>
  A column after conversion: untouched cells, numbers (int64, or float64 with NaN), or
  nullable Int16.
\<close>

datatype column = Object "cell list" | Numeric "num option list" | Int16 "16 word option list"

text \<open>
  \<open>.astype("Int16")\<close>: a missing entry becomes \<open><NA>\<close>. An infinite entry makes the
  cast raise \<open>OverflowError\<close>; otherwise every entry must be an integer in the range of
  Int16, else the cast raises \<open>TypeError\<close>. Either way the whole column fails.
\<close>

definition is_infinite :: "num \<Rightarrow> bool" where
  "is_infinite v = (case v of Finite r \<Rightarrow> False | PosInf \<Rightarrow> True | NegInf \<Rightarrow> True)"

definition fits_int16 :: "num \<Rightarrow> bool" where
  "fits_int16 v =
     (case v of
        Finite r \<Rightarrow> of_int \<lfloor>r\<rfloor> = r \<and> - 32768 \<le> r \<and> r \<le> 32767
      | _ \<Rightarrow> False)"

definition int16_of :: "num \<Rightarrow> 16 word" where
  "int16_of v = (case v of Finite r \<Rightarrow> word_of_int \<lfloor>r\<rfloor> | _ \<Rightarrow> 0)"

definition astype_Int16 :: "num option list \<Rightarrow> error + 16 word option list" where
  "astype_Int16 nums =
     (if list_ex (\<lambda>v. case v of None \<Rightarrow> False | Some x \<Rightarrow> is_infinite x) nums
      then Inl OverflowError
      else if list_all (\<lambda>v. case v of None \<Rightarrow> True | Some x \<Rightarrow> fits_int16 x) nums
      then Inr (map (map_option int16_of) nums)
      else Inl TypeError)"

text \<open>The body of the \<open>for col in df.columns\<close> loop of the type conversion.\<close>

definition convert_column :: "parser \<Rightarrow> string \<Rightarrow> cell list \<Rightarrow> error + column" where
  "convert_column p col cells =
     (if col = ''district_number'' \<or> col = ''district_name'' then Inr (Object cells)
      else if col = ''year'' then
        (case astype_Int16 (to_numeric p cells) of
           Inl e \<Rightarrow> Inl e
         | Inr ys \<Rightarrow> Inr (Int16 ys))
      else
        let nums = to_numeric p cells
        in if notna_mean_ge_09 nums then Inr (Numeric nums) else Inr (Object cells))"

text \<open>
  The same body for a label of the frame. A label that is no text equals none of the
  three names, so its column takes the last branch.
\<close>

definition convert_labelled :: "parser \<Rightarrow> label \<Rightarrow> cell list \<Rightarrow> error + column" where
  "convert_labelled p col cells =
     (case col of
        StrLabel s \<Rightarrow> convert_column p s cells
      | _ \<Rightarrow>
        let nums = to_numeric p cells
        in if notna_mean_ge_09 nums then Inr (Numeric nums) else Inr (Object cells))"

text \<open>
  The frame \<open>read_excel\<close> delivers: its columns in order, each with its label and its
  cells, one cell per row. Its labels are pairwise different, so that \<open>df[col]\<close> is one
  column. The cells are missing values, integers, floats and texts.
\<close>

type_synonym frame = "(label \<times> cell list) list"

text \<open>
  \<open>df["DISTRICT NUMBER"] = df["DISTRICT NUMBER"].apply(clean_district_number)\<close>; the
  lookup of a label the frame does not have raises \<open>KeyError\<close>.
\<close>

definition clean_district_numbers :: "frame \<Rightarrow> error + frame" where
  "clean_district_numbers df =
     (if StrLabel ''DISTRICT NUMBER'' \<in> fst ` set df
      then Inr (map (\<lambda>(col, cells).
                      if col = StrLabel ''DISTRICT NUMBER''
                      then (col, map (\<lambda>x. as_cell (clean_district_number x)) cells)
                      else (col, cells)) df)
      else Inl (KeyError ''DISTRICT NUMBER''))"

text \<open>The renaming loop and \<open>df.rename\<close>, on the frame.\<close>

definition rename_frame :: "frame \<Rightarrow> error + frame" where
  "rename_frame df =
     (case rename_columns (map fst df) of
        Inl e \<Rightarrow> Inl e
      | Inr cols \<Rightarrow> Inr (zip cols (map snd df)))"

fun convert_types :: "parser \<Rightarrow> frame \<Rightarrow> error + (label \<times> column) list" where
  "convert_types p [] = Inr []"
| "convert_types p ((col, cells) # rest) =
     (case convert_labelled p col cells of
        Inl e \<Rightarrow> Inl e
      | Inr c \<Rightarrow>
         (case convert_types p rest of
            Inl e \<Rightarrow> Inl e
          | Inr rest' \<Rightarrow> Inr ((col, c) # rest')))"

text \<open>
  \<open>prepare_data\<close> from the frame it has read to the frame it returns. Writing the CSV
  file and the data dictionary does not change the frame and is left out.
\<close>

definition prepare_data :: "parser \<Rightarrow> frame \<Rightarrow> error + (label \<times> column) list" where
  "prepare_data p df =
     (case clean_district_numbers df of
        Inl e \<Rightarrow> Inl e
      | Inr df \<Rightarrow>
         (case rename_frame df of
            Inl e \<Rightarrow> Inl e
          | Inr df \<Rightarrow> convert_types p df))"

text \<open>
  The coercion rule as the specification words it: at least 90 percent of the
  non-missing values parse.
\<close>

definition stated_coerced :: "parser \<Rightarrow> cell list \<Rightarrow> bool" where
  "stated_coerced p cells \<longleftrightarrow>
     (let present = filter (\<lambda>c. c \<noteq> NA) cells
      in 9 * length present \<le> 10 * length (filter (\<lambda>c. to_num p c \<noteq> None) present))"


subsection \<open>Facts about the conversion and the frame\<close>











lemma notna_count_to_numeric:
  "notna_count (to_numeric p cells) = length (filter (\<lambda>c. to_num p c \<noteq> None) cells)"
  by (simp add: notna_count_def to_numeric_def filter_map comp_def)

subsection \<open>Claims about the type conversion and the rows\<close>

text \<open>
  C3, as the code has it. For every column other than \<open>district_number\<close>,
  \<open>district_name\<close> and \<open>year\<close>, the column is coerced to numeric if and only if it has
  at least one row and at least 90 percent of all its values, the missing ones counted
  as failures, parse as numbers; otherwise the column is left as it is.
\<close>

theorem convert_column_threshold:
  assumes "col \<noteq> ''district_number''" "col \<noteq> ''district_name''" "col \<noteq> ''year''"
  shows "(convert_column p col cells = Inr (Numeric (to_numeric p cells)) \<longleftrightarrow>
            cells \<noteq> [] \<and> 9 * length cells \<le> 10 * length (filter (\<lambda>c. to_num p c \<noteq> None) cells)) \<and>
         (convert_column p col cells = Inr (Object cells) \<longleftrightarrow>
            \<not> (cells \<noteq> [] \<and>
               9 * length cells \<le> 10 * length (filter (\<lambda>c. to_num p c \<noteq> None) cells)))"
proof -
  have "notna_mean_ge_09 (to_numeric p cells) \<longleftrightarrow>
          cells \<noteq> [] \<and> 9 * length cells \<le> 10 * length (filter (\<lambda>c. to_num p c \<noteq> None) cells)"
    by (simp add: notna_mean_ge_09_def notna_count_to_numeric) (simp add: to_numeric_def)
  then show ?thesis
    using assms by (simp add: convert_column_def Let_def)
qed

theorem convert_column_threshold_witness:
  "convert_column (\<lambda>s. None) ''total_revenue''
     [IntVal 1, IntVal 2, IntVal 3, IntVal 4, IntVal 5, IntVal 6, IntVal 7, IntVal 8, IntVal 9,
      StrVal ''n/a''] =
   Inr (Numeric (to_numeric (\<lambda>s. None)
     [IntVal 1, IntVal 2, IntVal 3, IntVal 4, IntVal 5, IntVal 6, IntVal 7, IntVal 8, IntVal 9,
      StrVal ''n/a'']))"
  using convert_column_threshold [of "''total_revenue''" "\<lambda>s. None"
     "[IntVal 1, IntVal 2, IntVal 3, IntVal 4, IntVal 5, IntVal 6, IntVal 7, IntVal 8, IntVal 9,
       StrVal ''n/a'']"]
  by simp

text \<open>
  C3 as stated fails on a column with one number and one missing value: all of its
  non-missing values parse, yet half of its values are missing after parsing and the
  column is left as it is.
\<close>

theorem convert_column_stated_counterexample:
  "convert_column (\<lambda>s. None) ''total_revenue'' [IntVal 1, NA] = Inr (Object [IntVal 1, NA]) \<and>
   stated_coerced (\<lambda>s. None) [IntVal 1, NA]"
  by code_simp




text \<open>A header cell that holds a number aborts the batch as well.\<close>

lemma prepare_data_numeric_header:
  "prepare_data (\<lambda>s. None)
     [(StrLabel ''DISTRICT NUMBER'', [IntVal 1]), (IntLabel 2020, [IntVal 5])] = Inl AttributeError"
  by code_simp

section \<open>The query endpoints\<close>

text \<open>
  The responses that are errors: 422 from the validation of a query parameter, 404 from
  \<open>get_district_summary\<close>, 500 from an error of the database.
\<close>

datatype http_error = ValidationError | NotFound | ServerError



text \<open>
  The rows of the two views, with the columns the queries read. \<open>SELECT *\<close> returns
  whatever further columns a row has; they are the extension of the record.
\<close>

record finance_row =
  district_number :: string
  district_name :: string
  year :: int








subsection \<open>Facts about the endpoints\<close>











subsection \<open>Claim about the limit\<close>





section \<open>The natural-language engine\<close>












section \<open>Metric derivation\<close>

text \<open>
  Modelled from the spec: the derivation of the per-student metrics. It lives in the SQL
  of the view \<open>v_finance_summary\<close>, which is not among the source files; only the
  endpoints that read the view are. The record and the two rules follow the data model
  of the specification: a metric is the total divided by the enrollment, and null when
  the enrollment is null or zero. The division is a checked one, so that a division by
  zero would show as a fault.
\<close>

record financial_record = finance_row +
  total_revenue :: "rat option"
  total_spend :: "rat option"
  instruction_spend :: "rat option"
  debt_service :: "rat option"
  capital_projects :: "rat option"
  enrollment :: "int option"

record derived_metrics =
  spend_per_student :: "rat option"
  revenue_per_student :: "rat option"

datatype fault = DivisionByZero

definition checked_divide :: "rat \<Rightarrow> int \<Rightarrow> fault + rat" where
  "checked_divide amount n = (if n = 0 then Inl DivisionByZero else Inr (amount / of_int n))"

definition per_student :: "rat option \<Rightarrow> int option \<Rightarrow> fault + rat option" where
  "per_student amount students =
     (case students of
        None \<Rightarrow> Inr None
      | Some n \<Rightarrow>
          if n = 0 then Inr None
          else (case amount of
                  None \<Rightarrow> Inr None
                | Some t \<Rightarrow> (case checked_divide t n of Inl f \<Rightarrow> Inl f | Inr q \<Rightarrow> Inr (Some q))))"

definition derive_metrics :: "financial_record \<Rightarrow> fault + derived_metrics" where
  "derive_metrics r =
     (case per_student (total_spend r) (enrollment r) of
        Inl f \<Rightarrow> Inl f
      | Inr s \<Rightarrow>
          (case per_student (total_revenue r) (enrollment r) of
             Inl f \<Rightarrow> Inl f
           | Inr v \<Rightarrow> Inr \<lparr>spend_per_student = s, revenue_per_student = v\<rparr>))"

lemma per_student_returns: "\<exists>v. per_student amount students = Inr v"
  by (auto simp: per_student_def checked_divide_def split: option.splits)

lemma per_student_undefined:
  "students = None \<or> students = Some 0 \<Longrightarrow> per_student amount students = Inr None"
  by (auto simp: per_student_def)

text \<open>
  C5. The derivation returns for every record and never faults, and for a record whose
  enrollment is null or zero both metrics are null.
\<close>

theorem derive_metrics_null_enrollment:
  "(\<exists>m. derive_metrics r = Inr m) \<and>
   (enrollment r = None \<or> enrollment r = Some 0 \<longrightarrow>
      derive_metrics r = Inr \<lparr>spend_per_student = None, revenue_per_student = None\<rparr>)"
proof -
  obtain s v where "per_student (total_spend r) (enrollment r) = Inr s"
      "per_student (total_revenue r) (enrollment r) = Inr v"
    using per_student_returns by metis
  then have "\<exists>m. derive_metrics r = Inr m" by (simp add: derive_metrics_def)
  moreover have "enrollment r = None \<or> enrollment r = Some 0 \<Longrightarrow>
      derive_metrics r = Inr \<lparr>spend_per_student = None, revenue_per_student = None\<rparr>"
    by (simp add: derive_metrics_def per_student_undefined)
  ultimately show ?thesis by blast
qed

theorem derive_metrics_null_enrollment_witness:
  "derive_metrics \<lparr>district_number = ''057905'', district_name = ''DALLAS ISD'', year = 2023,
      total_revenue = Some 1000000, total_spend = Some 840000, instruction_spend = None,
      debt_service = None, capital_projects = None, enrollment = Some 0\<rparr> =
   Inr \<lparr>spend_per_student = None, revenue_per_student = None\<rparr>"
  using derive_metrics_null_enrollment [of "\<lparr>district_number = ''057905'',
      district_name = ''DALLAS ISD'', year = 2023,
      total_revenue = Some 1000000, total_spend = Some 840000, instruction_spend = None,
      debt_service = None, capital_projects = None, enrollment = Some 0\<rparr>"]
  by simp

end
